theory Spec2Isabelle
  imports Complex_Main
begin

section \<open>JavaScript values\<close>

text \<open>
  A JavaScript string is a sequence of UTF-16 code units; a code unit is a natural number
  below 65536. \<open>ascii\<close> turns an ASCII literal into such a sequence.
\<close>

type_synonym jsstring = "nat list"

definition ascii :: "string \<Rightarrow> jsstring" where
  "ascii s = map of_char s"

text \<open>A thrown \<open>Error\<close> object: its \<open>message\<close> property may be missing.\<close>

datatype jserror = JsError (errMessage: "jsstring option")

text \<open>How an awaited promise settles.\<close>

datatype 'a settlement = Resolved 'a | Rejected jserror

section \<open>The message queue of ChatbotService\<close>

text \<open>
  An entry of \<open>messageQueue\<close>, as \<open>addToQueue\<close> pushes it. The pair of callbacks
  \<open>resolve\<close>, \<open>reject\<close> belongs to one promise; \<open>handle\<close> names that promise.
\<close>

record queued =
  userId :: jsstring
  message :: jsstring
  q_timestamp :: nat
  handle :: nat

text \<open>
  The fields of the service that the queue code reads and writes are \<open>messageQueue\<close> and
  \<open>isProcessing\<close>. The other three fields record what the code does to the outside:
  \<open>inFlight\<close> holds the calls of \<open>processMessageDirect\<close> that have started and have not
  settled (each one is awaited by a suspended run of \<open>processMessageQueue\<close>),
  \<open>invoked\<close> lists every call of \<open>processMessageDirect\<close> in the order the calls were made,
  and \<open>settled\<close> lists the calls of \<open>resolve\<close> and \<open>reject\<close> in order.
\<close>

record sequencer =
  messageQueue :: "queued list"
  isProcessing :: bool
  inFlight :: "queued list"
  invoked :: "queued list"
  settled :: "(nat \<times> jsstring settlement) list"

definition maxQueueSize :: nat where
  "maxQueueSize = 100"

definition queueFullApology :: jsstring where
  "queueFullApology =
     [3586, 3629, 3629, 3616, 3633, 3618, 3588, 3656, 3632, 32, 3619, 3632, 3610, 3610,
      3618, 3640, 3656, 3591, 3629, 3618, 3641, 3656, 32, 3585, 3619, 3640, 3603, 3634,
      3621, 3629, 3591, 3651, 3627, 3617, 3656, 3629, 3637, 3585, 3588, 3619, 3633, 3657,
      3591, 3651, 3609, 3629, 3637, 3585, 3626, 3633, 3585, 3588, 3619, 3641, 3656]"

definition initial :: sequencer where
  "initial = \<lparr>messageQueue = [], isProcessing = False, inFlight = [], invoked = [], settled = []\<rparr>"

text \<open>
  JavaScript runs a function without interruption until it awaits. \<open>drain\<close> is the
  \<open>while\<close> loop of \<open>processMessageQueue\<close> from its test to the next \<open>await\<close>: with
  a non-empty queue it shifts the first entry and calls \<open>processMessageDirect\<close> on it,
  then is suspended; with an empty queue it leaves the loop and clears \<open>isProcessing\<close>.
\<close>

definition drain :: "sequencer \<Rightarrow> sequencer" where
  "drain s =
     (case messageQueue s of
        [] \<Rightarrow> s\<lparr>isProcessing := False\<rparr>
      | r # rest \<Rightarrow>
          s\<lparr>messageQueue := rest, inFlight := inFlight s @ [r], invoked := invoked s @ [r]\<rparr>)"

definition processMessageQueue :: "sequencer \<Rightarrow> sequencer" where
  "processMessageQueue s =
     (if isProcessing s then s else drain (s\<lparr>isProcessing := True\<rparr>))"

definition addToQueue :: "jsstring \<Rightarrow> jsstring \<Rightarrow> nat \<Rightarrow> nat \<Rightarrow> sequencer \<Rightarrow> sequencer" where
  "addToQueue uid msg now h s =
     (if length (messageQueue s) \<ge> maxQueueSize
      then s\<lparr>settled := settled s @ [(h, Resolved queueFullApology)]\<rparr>
      else
        let s1 = s\<lparr>messageQueue := messageQueue s @
                     [\<lparr>userId = uid, message = msg, q_timestamp = now, handle = h\<rparr>]\<rparr>
        in if \<not> isProcessing s1 then processMessageQueue s1 else s1)"

text \<open>
  \<open>resume i out s\<close> is what a suspended run of \<open>processMessageQueue\<close> does when the call
  it awaits (the \<open>i\<close>-th of \<open>inFlight\<close>) settles with \<open>out\<close>: it calls \<open>resolve\<close> with
  the response, or \<open>reject\<close> with the error in the \<open>catch\<close> block, and goes back to the
  test of the loop. Without such a call nothing happens.
\<close>

definition resume :: "nat \<Rightarrow> jsstring settlement \<Rightarrow> sequencer \<Rightarrow> sequencer" where
  "resume i out s =
     (if i < length (inFlight s)
      then drain (s\<lparr>inFlight := take i (inFlight s) @ drop (Suc i) (inFlight s),
                    settled := settled s @ [(handle (inFlight s ! i), out)]\<rparr>)
      else s)"

text \<open>
  What can happen to the service: a caller enqueues a message, or a call of
  \<open>processMessageDirect\<close> that is in flight settles. A history is a list of such events.
\<close>

datatype event =
  Enqueue jsstring jsstring nat nat
| Settle nat "jsstring settlement"

fun step :: "event \<Rightarrow> sequencer \<Rightarrow> sequencer" where
  "step (Enqueue uid msg now h) s = addToQueue uid msg now h s"
| "step (Settle i out) s = resume i out s"

fun run :: "event list \<Rightarrow> sequencer \<Rightarrow> sequencer" where
  "run [] s = s"
| "run (e # es) s = run es (step e s)"

text \<open>
  The entries that a history pushes onto the queue, in the order of the pushes: those
  of its \<open>Enqueue\<close> events that find the queue below \<open>maxQueueSize\<close>.
\<close>

fun admitted :: "event list \<Rightarrow> sequencer \<Rightarrow> queued list" where
  "admitted [] s = []"
| "admitted (Enqueue uid msg now h # es) s =
     (if length (messageQueue s) \<ge> maxQueueSize then []
      else [\<lparr>userId = uid, message = msg, q_timestamp = now, handle = h\<rparr>])
     @ admitted es (step (Enqueue uid msg now h) s)"
| "admitted (Settle i out # es) s = admitted es (step (Settle i out) s)"

text \<open>The state of the worker: idle with nothing queued, or draining with one call in flight.\<close>

definition worker_inv :: "sequencer \<Rightarrow> bool" where
  "worker_inv s =
     (if isProcessing s then length (inFlight s) = 1
      else inFlight s = [] \<and> messageQueue s = [])"

section \<open>String operations\<close>

text \<open>
  The code units that \<open>String.prototype.trim\<close> removes and that \<open>\s\<close> matches in a
  regular expression: the white space and line terminator characters of ECMAScript.
\<close>

definition isWhiteSpace :: "nat \<Rightarrow> bool" where
  "isWhiteSpace c =
     (c = 9 \<or> c = 10 \<or> c = 11 \<or> c = 12 \<or> c = 13 \<or> c = 32 \<or> c = 160 \<or> c = 5760 \<or>
      (8192 \<le> c \<and> c \<le> 8202) \<or> c = 8232 \<or> c = 8233 \<or> c = 8239 \<or> c = 8287 \<or>
      c = 12288 \<or> c = 65279)"

definition trim :: "jsstring \<Rightarrow> jsstring" where
  "trim s = rev (dropWhile isWhiteSpace (rev (dropWhile isWhiteSpace s)))"

fun startsWith :: "jsstring \<Rightarrow> jsstring \<Rightarrow> bool" where
  "startsWith s [] = True"
| "startsWith [] (c # t) = False"
| "startsWith (d # s) (c # t) = (d = c \<and> startsWith s t)"

text \<open>\<open>str_includes s t\<close> is \<open>s.includes(t)\<close>: \<open>t\<close> occurs in \<open>s\<close> as a substring.\<close>

fun str_includes :: "jsstring \<Rightarrow> jsstring \<Rightarrow> bool" where
  "str_includes [] t = (t = [])"
| "str_includes (c # s) t = (startsWith (c # s) t \<or> str_includes s t)"

section \<open>The user sessions of ChatbotService\<close>

text \<open>
  A session as \<open>setUserSession\<close> stores it; \<open>timestamp\<close> is a value of \<open>Date.now()\<close>,
  in milliseconds. \<open>userSessions\<close> is a JavaScript \<open>Map\<close>: its entries have distinct
  keys and are visited in the order of their insertion.
\<close>

record session =
  lastMessage :: jsstring
  messageCount :: nat
  timestamp :: int

type_synonym sessions = "(jsstring \<times> session) list"

definition sessionTimeout :: int where
  "sessionTimeout = 30 * 60 * 1000"

fun mapGet :: "sessions \<Rightarrow> jsstring \<Rightarrow> session option" where
  "mapGet [] k = None"
| "mapGet ((k', v) # m) k = (if k' = k then Some v else mapGet m k)"

fun mapDelete :: "sessions \<Rightarrow> jsstring \<Rightarrow> sessions" where
  "mapDelete [] k = []"
| "mapDelete ((k', v) # m) k = (if k' = k then m else (k', v) # mapDelete m k)"

fun mapSet :: "sessions \<Rightarrow> jsstring \<Rightarrow> session \<Rightarrow> sessions" where
  "mapSet [] k v = [(k, v)]"
| "mapSet ((k', v') # m) k v = (if k' = k then (k, v) # m else (k', v') # mapSet m k v)"

text \<open>\<open>getUserSession\<close> returns the session or \<open>null\<close>, and deletes a session it finds expired.\<close>

definition getUserSession :: "jsstring \<Rightarrow> int \<Rightarrow> sessions \<Rightarrow> session option \<times> sessions" where
  "getUserSession uid now m =
     (case mapGet m uid of
        Some sess \<Rightarrow>
          if now - timestamp sess < sessionTimeout then (Some sess, m)
          else (None, mapDelete m uid)
      | None \<Rightarrow> (None, m))"

definition setUserSession :: "jsstring \<Rightarrow> jsstring \<Rightarrow> nat \<Rightarrow> int \<Rightarrow> sessions \<Rightarrow> sessions" where
  "setUserSession uid msg cnt now m =
     mapSet m uid \<lparr>lastMessage = msg, messageCount = cnt, timestamp = now\<rparr>"

text \<open>
  The loop of \<open>cleanupExpiredSessions\<close>: it visits the entries in order and deletes from
  the map each one whose age is greater than \<open>sessionTimeout\<close>.
\<close>

fun cleanupLoop :: "int \<Rightarrow> sessions \<Rightarrow> sessions \<Rightarrow> sessions" where
  "cleanupLoop now [] m = m"
| "cleanupLoop now ((uid, sess) # entries) m =
     cleanupLoop now entries
       (if now - timestamp sess > sessionTimeout then mapDelete m uid else m)"

definition cleanupExpiredSessions :: "int \<Rightarrow> sessions \<Rightarrow> sessions" where
  "cleanupExpiredSessions now m = cleanupLoop now m m"

section \<open>The retry loop of GeminiService\<close>

definition maxRetries :: nat where
  "maxRetries = 3"

definition retryDelay :: nat where
  "retryDelay = 2000"

definition quotaExceededMessage :: jsstring where
  "quotaExceededMessage = ascii ''Gemini API quota exceeded. Please try again later.''"

text \<open>The test \<open>error.message && error.message.includes('429')\<close>.\<close>

definition isQuotaError :: "jserror \<Rightarrow> bool" where
  "isQuotaError err =
     (case errMessage err of
        None \<Rightarrow> False
      | Some m \<Rightarrow> m \<noteq> [] \<and> str_includes m (ascii ''429''))"

text \<open>
  What a call of \<open>generateResponse\<close> does: how its promise settles (\<open>Resolved None\<close>
  stands for leaving the loop without a \<open>return\<close>), how many times it called the model,
  and the delays in milliseconds that it waited, in order.
\<close>

record generation =
  outcome :: "jsstring option settlement"
  calls :: nat
  waits :: "nat list"

text \<open>
  \<open>model k\<close> is the outcome of the \<open>try\<close> block in attempt \<open>k\<close>: the text of the
  model's response, or the error thrown by the call or by reading the response.
\<close>

function generateLoop :: "(nat \<Rightarrow> jserror + jsstring) \<Rightarrow> nat \<Rightarrow> nat list \<Rightarrow> generation" where
  "generateLoop model attempt delays =
     (if attempt \<le> maxRetries then
        (case model attempt of
           Inr text \<Rightarrow> \<lparr>outcome = Resolved (Some (trim text)), calls = attempt, waits = delays\<rparr>
         | Inl err \<Rightarrow>
             if isQuotaError err then
               (if attempt < maxRetries
                then generateLoop model (attempt + 1) (delays @ [retryDelay * attempt])
                else \<lparr>outcome = Rejected (JsError (Some quotaExceededMessage)),
                      calls = attempt, waits = delays\<rparr>)
             else \<lparr>outcome = Rejected err, calls = attempt, waits = delays\<rparr>)
      else \<lparr>outcome = Resolved None, calls = attempt - 1, waits = delays\<rparr>)"
  by pat_completeness auto
termination
  by (relation "measure (\<lambda>(model, attempt, delays). Suc maxRetries - attempt)") auto

declare generateLoop.simps [simp del]

definition generateResponse :: "(nat \<Rightarrow> jserror + jsstring) \<Rightarrow> generation" where
  "generateResponse model = generateLoop model 1 []"

section \<open>The document cache of GoogleDocsService\<close>

text \<open>
  A document as the Google Docs API returns it: the structural elements of its body, each
  with or without a paragraph; a paragraph is a list of elements, each with or without a
  text run.
\<close>

type_synonym docsParagraph = "jsstring option list"
type_synonym docsDocument = "docsParagraph option list"

definition extractTextFromParagraph :: "docsParagraph \<Rightarrow> jsstring" where
  "extractTextFromParagraph par =
     concat (map (\<lambda>el. case el of None \<Rightarrow> [] | Some content \<Rightarrow> content) par)"

definition extractTextFromDocument :: "docsDocument \<Rightarrow> jsstring" where
  "extractTextFromDocument doc =
     trim (concat (map (\<lambda>el. case el of None \<Rightarrow> []
                                | Some par \<Rightarrow> extractTextFromParagraph par @ [10]) doc))"

text \<open>
  The fields of the service: \<open>docs\<close> tells whether the API client is set, \<open>docsId\<close> is
  the configured identifier, \<open>loadingPromise\<close> names the promise of the load in flight.
\<close>

record docsService =
  docs :: bool
  docsId :: "jsstring option"
  contentCache :: "jsstring option"
  cacheTimestamp :: "int option"
  isLoading :: bool
  loadingPromise :: "nat option"

definition cacheExpiry :: int where
  "cacheExpiry = 1 * 60 * 1000"

definition notInitializedMessage :: jsstring where
  "notInitializedMessage = ascii ''Google Docs service not initialized''"

text \<open>
  \<open>getDocumentContent\<close> runs in three parts, separated by its \<open>await\<close>s. The first
  part ends by throwing, by returning the cached text, by awaiting the load in flight,
  or by starting a load of its own (the promise \<open>p\<close>) and awaiting it.
\<close>

datatype started =
  Throws jserror
| Returns jsstring
| AwaitsOther nat
| AwaitsOwn nat

definition cacheValid :: "int \<Rightarrow> docsService \<Rightarrow> bool" where
  "cacheValid now s =
     (case (contentCache s, cacheTimestamp s) of
        (Some c, Some t) \<Rightarrow> c \<noteq> [] \<and> t \<noteq> 0 \<and> now - t < cacheExpiry
      | _ \<Rightarrow> False)"

definition getDocumentContent_start ::
  "bool \<Rightarrow> int \<Rightarrow> nat \<Rightarrow> docsService \<Rightarrow> started \<times> docsService" where
  "getDocumentContent_start forceRefresh now p s =
     (if \<not> docs s \<or> docsId s = None \<or> docsId s = Some []
      then (Throws (JsError (Some notInitializedMessage)), s)
      else
        case (if \<not> forceRefresh \<and> cacheValid now s then contentCache s else None) of
          Some c \<Rightarrow> (Returns c, s)
        | None \<Rightarrow>
           (case (if isLoading s then loadingPromise s else None) of
              Some q \<Rightarrow> (AwaitsOther q, s)
            | None \<Rightarrow> (AwaitsOwn p, s\<lparr>isLoading := True, loadingPromise := Some p\<rparr>)))"

text \<open>
  The second part is \<open>_loadDocumentContent\<close> after its request has settled: a document
  is turned into text and cached, an error is thrown again.
\<close>

definition loadDocumentContent ::
  "jserror + docsDocument \<Rightarrow> int \<Rightarrow> docsService \<Rightarrow> jsstring settlement \<times> docsService" where
  "loadDocumentContent fetched now s =
     (case fetched of
        Inl err \<Rightarrow> (Rejected err, s)
      | Inr doc \<Rightarrow>
          let content = extractTextFromDocument doc
          in (Resolved content, s\<lparr>contentCache := Some content, cacheTimestamp := Some now\<rparr>))"

text \<open>
  The third part is the end of the call that started the load: it passes on the outcome of
  the load, and its \<open>finally\<close> block clears the lock.
\<close>

definition getDocumentContent_finish ::
  "jsstring settlement \<Rightarrow> docsService \<Rightarrow> jsstring settlement \<times> docsService" where
  "getDocumentContent_finish loaded s = (loaded, s\<lparr>isLoading := False, loadingPromise := None\<rparr>)"

text \<open>
  A whole call with nothing else running in between: \<open>fetched\<close> is the outcome of the
  request if the call makes one and \<open>loadedAt\<close> the time at which it arrives,
  \<open>other\<close> the outcome of the load already in flight if the call waits for that one.
\<close>

definition getDocumentContent ::
  "bool \<Rightarrow> int \<Rightarrow> nat \<Rightarrow> jserror + docsDocument \<Rightarrow> int \<Rightarrow> jsstring settlement \<Rightarrow>
   docsService \<Rightarrow> jsstring settlement \<times> docsService" where
  "getDocumentContent forceRefresh now p fetched loadedAt other s =
     (case getDocumentContent_start forceRefresh now p s of
        (Throws err, s1) \<Rightarrow> (Rejected err, s1)
      | (Returns c, s1) \<Rightarrow> (Resolved c, s1)
      | (AwaitsOther q, s1) \<Rightarrow> (other, s1)
      | (AwaitsOwn q, s1) \<Rightarrow>
          (case loadDocumentContent fetched loadedAt s1 of
             (loaded, s2) \<Rightarrow> getDocumentContent_finish loaded s2))"

section \<open>The source attempts of processMessageDirect\<close>





datatype dataSource = Docs | Sheets




text \<open>
  \<open>replace(/\s*\[tag\]\s*$/i, '')\<close> for a tag of ASCII letters in square brackets:
  a tag at the end of the string, in either case, goes with the white space around it.
\<close>

definition lowerAscii :: "nat \<Rightarrow> nat" where
  "lowerAscii c = (if 65 \<le> c \<and> c \<le> 90 then c + 32 else c)"

















section \<open>The keyword lookup of GoogleSheetsService\<close>

text \<open>
  An entry of \<open>keywordsData\<close> as \<open>loadKeywordsData\<close> builds it from a row, and the
  object that \<open>findMatchingKeyword\<close> returns for a match.
\<close>

record keywordItem =
  item_id :: nat
  keyword :: jsstring
  answer :: jsstring
  originalKeyword :: jsstring
  sheet :: jsstring

record keywordMatch =
  r_keyword :: jsstring
  r_answer :: jsstring
  score :: rat
  matchType :: jsstring

definition matchOf :: "keywordItem \<Rightarrow> rat \<Rightarrow> jsstring \<Rightarrow> keywordMatch" where
  "matchOf item sc ty =
     \<lparr>r_keyword = originalKeyword item, r_answer = answer item, score = sc, matchType = ty\<rparr>"

text \<open>
  \<open>String.prototype.toLowerCase\<close> depends on the Unicode case tables. It is an argument
  \<open>lc\<close> of the functions below, so that what is proved holds for whatever it returns. On
  ASCII text it is \<open>map lowerAscii\<close>.
\<close>

text \<open>
  The first pass: the entries in order, those with an empty keyword skipped; the first
  entry whose keyword is the message, contains it or is contained in it ends the search.
\<close>

fun firstPass :: "(jsstring \<Rightarrow> jsstring) \<Rightarrow> jsstring \<Rightarrow> keywordItem list \<Rightarrow> keywordMatch option" where
  "firstPass lc msg [] = None"
| "firstPass lc msg (item # items) =
     (if keyword item = [] then firstPass lc msg items
      else if msg = trim (lc (keyword item))
      then Some (matchOf item 1 (ascii ''exact''))
      else if str_includes msg (trim (lc (keyword item))) \<or>
              str_includes (trim (lc (keyword item))) msg
      then Some (matchOf item (9 / 10) (ascii ''partial''))
      else firstPass lc msg items)"

text \<open>
  \<open>split(/\s+/)\<close>: the pieces between the runs of white space; a string that starts
  or ends with white space gives an empty first or last piece.
\<close>

function splitAcc :: "jsstring \<Rightarrow> jsstring \<Rightarrow> jsstring list" where
  "splitAcc acc [] = [rev acc]"
| "splitAcc acc (c # cs) =
     (if isWhiteSpace c then rev acc # splitAcc [] (dropWhile isWhiteSpace cs)
      else splitAcc (c # acc) cs)"
  by pat_completeness auto
termination
  by (relation "measure (\<lambda>(acc, s). length s)")
     (auto simp: le_imp_less_Suc length_dropWhile_le)

definition splitWords :: "jsstring \<Rightarrow> jsstring list" where
  "splitWords s = splitAcc [] s"

definition wordsMatch :: "jsstring \<Rightarrow> jsstring \<Rightarrow> bool" where
  "wordsMatch messageWord keywordWord =
     (messageWord = keywordWord \<or> str_includes messageWord keywordWord \<or>
      str_includes keywordWord messageWord)"

text \<open>
  The second pass keeps the best entry so far and its score. The score is the quotient of
  two word counts; it and the threshold are taken as exact fractions.
\<close>

fun wordPass ::
  "(jsstring \<Rightarrow> jsstring) \<Rightarrow> rat \<Rightarrow> jsstring list \<Rightarrow> keywordItem list \<Rightarrow>
   keywordMatch option \<times> rat \<Rightarrow> keywordMatch option \<times> rat" where
  "wordPass lc threshold messageWords [] best = best"
| "wordPass lc threshold messageWords (item # items) (bestMatch, bestScore) =
     (if keyword item = [] then wordPass lc threshold messageWords items (bestMatch, bestScore)
      else
        let keywordWords = splitWords (trim (lc (keyword item)));
            matchCount = length (filter (\<lambda>mw. list_ex (wordsMatch mw) keywordWords) messageWords);
            totalWords = max (length messageWords) (length keywordWords);
            sc = of_nat matchCount / of_nat totalWords
        in if sc \<ge> threshold \<and> sc > bestScore
           then wordPass lc threshold messageWords items
                  (Some (matchOf item sc (ascii ''word_match'')), sc)
           else wordPass lc threshold messageWords items (bestMatch, bestScore))"

text \<open>
  \<open>levenshteinDistance\<close> fills a matrix with one row for each character of \<open>str2\<close>.
  \<open>fillRow c str1 prev left\<close> computes the cells of a row after its first one, from
  the previous row and the cell to the left.
\<close>

fun fillRow :: "nat \<Rightarrow> jsstring \<Rightarrow> nat list \<Rightarrow> nat \<Rightarrow> nat list" where
  "fillRow c (d # ds) (diag # up # prev) left =
     (let v = (if c = d then diag else min (diag + 1) (min (left + 1) (up + 1)))
      in v # fillRow c ds (up # prev) v)"
| "fillRow c ds prev left = []"

fun levenshteinRows :: "jsstring \<Rightarrow> jsstring \<Rightarrow> nat \<Rightarrow> nat list \<Rightarrow> nat list" where
  "levenshteinRows str1 [] i row = row"
| "levenshteinRows str1 (c # cs) i row =
     levenshteinRows str1 cs (i + 1) (i # fillRow c str1 row i)"

definition levenshteinDistance :: "jsstring \<Rightarrow> jsstring \<Rightarrow> nat" where
  "levenshteinDistance str1 str2 = last (levenshteinRows str1 str2 1 [0..<Suc (length str1)])"

definition calculateSimilarity :: "jsstring \<Rightarrow> jsstring \<Rightarrow> rat" where
  "calculateSimilarity str1 str2 =
     (if str1 = [] \<or> str2 = [] then 0
      else
        let longer = (if length str1 > length str2 then str1 else str2);
            shorter = (if length str1 > length str2 then str2 else str1)
        in if length longer = 0 then 1
           else (of_nat (length longer) - of_nat (levenshteinDistance longer shorter))
                  / of_nat (length longer))"

text \<open>The third pass: an entry with a word similar to a word of the message scores 0.4.\<close>

fun fuzzyPass ::
  "(jsstring \<Rightarrow> jsstring) \<Rightarrow> jsstring list \<Rightarrow> keywordItem list \<Rightarrow>
   keywordMatch option \<times> rat \<Rightarrow> keywordMatch option \<times> rat" where
  "fuzzyPass lc messageWords [] best = best"
| "fuzzyPass lc messageWords (item # items) (bestMatch, bestScore) =
     (if keyword item = [] then fuzzyPass lc messageWords items (bestMatch, bestScore)
      else if list_ex (\<lambda>mw. list_ex (\<lambda>kw. calculateSimilarity mw kw \<ge> 6 / 10)
                               (splitWords (trim (lc (keyword item))))) messageWords \<and>
              4 / 10 > bestScore
      then fuzzyPass lc messageWords items (Some (matchOf item (4 / 10) (ascii ''fuzzy'')), 4 / 10)
      else fuzzyPass lc messageWords items (bestMatch, bestScore))"

text \<open>The fourth pass looks for the first entry whose keyword contains a contact term.\<close>

fun firstWithTerm ::
  "(jsstring \<Rightarrow> jsstring) \<Rightarrow> jsstring list \<Rightarrow> keywordItem list \<Rightarrow> keywordItem option" where
  "firstWithTerm lc terms [] = None"
| "firstWithTerm lc terms (item # items) =
     (if keyword item = [] then firstWithTerm lc terms items
      else if list_ex (str_includes (trim (lc (keyword item)))) terms then Some item
      else firstWithTerm lc terms items)"

definition emailTerms :: "jsstring list" where
  "emailTerms = [[3629, 3637, 3648, 3617, 3621], ascii ''email'', ascii ''e-mail'',
                 [3648, 3617, 3621]]"

definition phoneTerms :: "jsstring list" where
  "phoneTerms = [[3648, 3610, 3629, 3619, 3660], [3650, 3607, 3619],
                 [3648, 3610, 3629, 3619, 3660, 3650, 3607, 3619], ascii ''phone'', ascii ''tel'']"

definition contactTerms :: "jsstring list" where
  "contactTerms = [[3605, 3636, 3604, 3605, 3656, 3629], [3586, 3657, 3629, 3617, 3641, 3621],
                   ascii ''contact'']"

definition contactPass ::
  "(jsstring \<Rightarrow> jsstring) \<Rightarrow> jsstring \<Rightarrow> keywordItem list \<Rightarrow> keywordMatch option" where
  "contactPass lc msg items =
     (case (if list_ex (str_includes msg) emailTerms
            then firstWithTerm lc [[3629, 3637, 3648, 3617, 3621], ascii ''email''] items
            else None) of
        Some item \<Rightarrow> Some (matchOf item (4 / 10) (ascii ''email_specific''))
      | None \<Rightarrow>
         (case (if list_ex (str_includes msg) phoneTerms
                then firstWithTerm lc [[3648, 3610, 3629, 3619, 3660], [3650, 3607, 3619]] items
                else None) of
            Some item \<Rightarrow> Some (matchOf item (4 / 10) (ascii ''phone_specific''))
          | None \<Rightarrow>
             (case (if list_ex (str_includes msg) contactTerms
                    then firstWithTerm lc contactTerms items
                    else None) of
                Some item \<Rightarrow> Some (matchOf item (3 / 10) (ascii ''contact_term''))
              | None \<Rightarrow> None)))"

definition findMatchingKeyword ::
  "(jsstring \<Rightarrow> jsstring) \<Rightarrow> keywordItem list \<Rightarrow> jsstring \<Rightarrow> rat \<Rightarrow> keywordMatch option" where
  "findMatchingKeyword lc keywordsData userMessage threshold =
     (if length keywordsData = 0 then None
      else
        let msg = trim (lc userMessage)
        in case firstPass lc msg keywordsData of
             Some m \<Rightarrow> Some m
           | None \<Rightarrow>
               let messageWords = splitWords msg;
                   second = wordPass lc threshold messageWords keywordsData (None, 0);
                   third = (if fst second = None
                            then fuzzyPass lc messageWords keywordsData second else second)
               in if fst third = None then contactPass lc msg keywordsData
                  else fst third)"

section \<open>The link formatter of ChatbotService\<close>

text \<open>
  The regular expressions of \<open>formatClickableLinks\<close> are sequences of character
  classes, each repeated between a least and a greatest number of times, as many times as
  possible first. \<open>Rpt P lo hi\<close> is the class \<open>P\<close> repeated \<open>lo\<close> to \<open>hi\<close> times
  (without bound for \<open>None\<close>).
\<close>

datatype rxItem = Rpt "nat \<Rightarrow> bool" nat "nat option"

definition lit :: "nat \<Rightarrow> rxItem" where
  "lit c = Rpt (\<lambda>x. x = c) 1 (Some 1)"

definition available :: "(nat \<Rightarrow> bool) \<Rightarrow> nat option \<Rightarrow> jsstring \<Rightarrow> nat" where
  "available P hi s =
     (case hi of
        None \<Rightarrow> length (takeWhile P s)
      | Some h \<Rightarrow> min h (length (takeWhile P s)))"

text \<open>
  \<open>matchSeq items s\<close> is the length of the match of the pattern at the start of \<open>s\<close>,
  if there is one. A repetition first takes as many characters as it can;
  \<open>backtrack items lo n s\<close> tries the rest of the pattern after \<open>n\<close> characters and,
  while that fails, after one character less, down to \<open>lo\<close>.
\<close>

fun matchSeq :: "rxItem list \<Rightarrow> jsstring \<Rightarrow> nat option"
  and backtrack :: "rxItem list \<Rightarrow> nat \<Rightarrow> nat \<Rightarrow> jsstring \<Rightarrow> nat option" where
  "matchSeq [] s = Some 0"
| "matchSeq (Rpt P lo hi # items) s = backtrack items lo (available P hi s) s"
| "backtrack items lo n s =
     (if n < lo then None
      else case matchSeq items (drop n s) of
             Some k \<Rightarrow> Some (n + k)
           | None \<Rightarrow> if n = 0 then None else backtrack items lo (n - 1) s)"

definition isDigit :: "nat \<Rightarrow> bool" where
  "isDigit c = (48 \<le> c \<and> c \<le> 57)"





text \<open>\<open>/(\d{2,3}-\d{3,4}-\d{4})/g\<close>\<close>

definition phonePattern :: "rxItem list" where
  "phonePattern =
     [Rpt isDigit 2 (Some 3), lit 45, Rpt isDigit 3 (Some 4), lit 45, Rpt isDigit 4 (Some 4)]"









section \<open>Properties of the message queue\<close>

lemma worker_inv_initial: "worker_inv initial"
  by (simp add: worker_inv_def initial_def)

lemma worker_inv_addToQueue: "worker_inv s \<Longrightarrow> worker_inv (addToQueue uid msg now h s)"
  by (auto simp: worker_inv_def addToQueue_def processMessageQueue_def drain_def Let_def
      split: list.splits if_splits)

lemma worker_inv_resume: "worker_inv s \<Longrightarrow> worker_inv (resume i out s)"
  by (auto simp: worker_inv_def resume_def drain_def split: list.splits if_splits)

lemma worker_inv_step: "worker_inv s \<Longrightarrow> worker_inv (step e s)"
  by (cases e) (simp_all add: worker_inv_addToQueue worker_inv_resume)

lemma worker_inv_run: "worker_inv s \<Longrightarrow> worker_inv (run es s)"
  by (induction es arbitrary: s) (simp_all add: worker_inv_step)

lemma worker_inv_inFlight: "worker_inv s \<Longrightarrow> length (inFlight s) \<le> 1"
  by (simp add: worker_inv_def split: if_splits)

lemma queue_bound_addToQueue:
  assumes bound: "length (messageQueue s) \<le> maxQueueSize"
  shows "length (messageQueue (addToQueue uid msg now h s)) \<le> maxQueueSize"
proof (cases "length (messageQueue s) \<ge> maxQueueSize")
  case True
  then show ?thesis using bound by (simp add: addToQueue_def)
next
  case False
  let ?q = "messageQueue s @ [\<lparr>userId = uid, message = msg, q_timestamp = now, handle = h\<rparr>]"
  have len: "length ?q \<le> maxQueueSize" using False by simp
  show ?thesis
  proof (cases "isProcessing s")
    case True
    then show ?thesis using False len by (simp add: addToQueue_def Let_def)
  next
    case np: False
    obtain r rest where q: "?q = r # rest" by (cases ?q) simp_all
    have "length rest \<le> maxQueueSize" using len q by simp
    then show ?thesis using False np q
      by (simp add: addToQueue_def processMessageQueue_def drain_def Let_def)
  qed
qed

lemma queue_bound_resume:
  "length (messageQueue s) \<le> maxQueueSize \<Longrightarrow>
   length (messageQueue (resume i out s)) \<le> maxQueueSize"
  by (auto simp: resume_def drain_def split: list.splits)

lemma queue_bound_run:
  "length (messageQueue s) \<le> maxQueueSize \<Longrightarrow>
   length (messageQueue (run es s)) \<le> maxQueueSize"
proof (induction es arbitrary: s)
  case Nil
  then show ?case by simp
next
  case (Cons e es)
  have "length (messageQueue (step e s)) \<le> maxQueueSize"
    using Cons.prems by (cases e) (simp_all add: queue_bound_addToQueue queue_bound_resume)
  then show ?case using Cons.IH by simp
qed

lemma order_addToQueue:
  "invoked (addToQueue uid msg now h s) @ messageQueue (addToQueue uid msg now h s) =
   invoked s @ messageQueue s @
     (if length (messageQueue s) \<ge> maxQueueSize then []
      else [\<lparr>userId = uid, message = msg, q_timestamp = now, handle = h\<rparr>])"
  by (auto simp: addToQueue_def processMessageQueue_def drain_def Let_def split: list.splits)

lemma order_resume:
  "invoked (resume i out s) @ messageQueue (resume i out s) = invoked s @ messageQueue s"
  by (auto simp: resume_def drain_def split: list.splits)

lemma order_run:
  "invoked (run es s) @ messageQueue (run es s) = invoked s @ messageQueue s @ admitted es s"
proof (induction es arbitrary: s)
  case Nil
  then show ?case by simp
next
  case (Cons e es)
  show ?case
  proof (cases e)
    case (Enqueue uid msg now h)
    then show ?thesis using Cons.IH [of "step e s"] by (simp add: order_addToQueue)
  next
    case (Settle i out)
    then show ?thesis using Cons.IH [of "step e s"] by (simp add: order_resume)
  qed
qed

lemma settle_all:
  "length (inFlight s) = 1 \<Longrightarrow> length outs = Suc (length (messageQueue s)) \<Longrightarrow>
   invoked (run (map (Settle 0) outs) s) = invoked s @ messageQueue s \<and>
   messageQueue (run (map (Settle 0) outs) s) = [] \<and>
   inFlight (run (map (Settle 0) outs) s) = [] \<and>
   map snd (settled (run (map (Settle 0) outs) s)) = map snd (settled s) @ outs"
proof (induction outs arbitrary: s)
  case Nil
  then show ?case by simp
next
  case (Cons out outs)
  obtain r where r: "inFlight s = [r]"
    using Cons.prems(1) by (cases "inFlight s") simp_all
  show ?case
  proof (cases "messageQueue s")
    case Nil
    then have "outs = []" using Cons.prems(2) by simp
    then show ?thesis using Nil r by (simp add: resume_def drain_def)
  next
    case (Cons q rest)
    let ?s' = "resume 0 out s"
    have s': "inFlight ?s' = [q]" "messageQueue ?s' = rest" "invoked ?s' = invoked s @ [q]"
      "settled ?s' = settled s @ [(handle r, out)]"
      using Cons r by (simp_all add: resume_def drain_def)
    have "length (inFlight ?s') = 1" "length outs = Suc (length (messageQueue ?s'))"
      using s' Cons Cons.prems(2) by simp_all
    from Cons.IH [OF this] show ?thesis using s' Cons by simp
  qed
qed

text \<open>
  C1. Whatever the history of enqueued messages and settled calls, at most one call of
  \<open>processMessageDirect\<close> is in flight after it, and \<open>processMessageQueue\<close> called
  while \<open>isProcessing\<close> is set returns at once without starting a second loop.
\<close>

theorem at_most_one_in_flight:
  "length (inFlight (run es initial)) \<le> 1 \<and>
   processMessageQueue (s\<lparr>isProcessing := True\<rparr>) = s\<lparr>isProcessing := True\<rparr>"
proof
  show "length (inFlight (run es initial)) \<le> 1"
    by (rule worker_inv_inFlight) (rule worker_inv_run, rule worker_inv_initial)
  show "processMessageQueue (s\<lparr>isProcessing := True\<rparr>) = s\<lparr>isProcessing := True\<rparr>"
    by (simp add: processMessageQueue_def)
qed

text \<open>
  C2. After every history the queue holds at most \<open>maxQueueSize\<close> entries, and
  \<open>addToQueue\<close> on a queue of at least \<open>maxQueueSize\<close> entries changes nothing but the
  caller's promise, which it resolves with the fixed apology.
\<close>

theorem queue_never_exceeds_max:
  "length (messageQueue (run es initial)) \<le> maxQueueSize \<and>
   (length (messageQueue s) \<ge> maxQueueSize \<longrightarrow>
      addToQueue uid msg now h s = s\<lparr>settled := settled s @ [(h, Resolved queueFullApology)]\<rparr>)"
  by (simp add: queue_bound_run initial_def addToQueue_def)

theorem queue_never_exceeds_max_witness:
  "length (messageQueue (initial\<lparr>messageQueue := replicate 100
       \<lparr>userId = ascii ''u'', message = ascii ''hi'', q_timestamp = 0, handle = 0\<rparr>\<rparr>)) \<ge> maxQueueSize \<and>
   addToQueue (ascii ''v'') (ascii ''hello'') 5 7
     (initial\<lparr>messageQueue := replicate 100
       \<lparr>userId = ascii ''u'', message = ascii ''hi'', q_timestamp = 0, handle = 0\<rparr>\<rparr>) =
   initial\<lparr>messageQueue := replicate 100
       \<lparr>userId = ascii ''u'', message = ascii ''hi'', q_timestamp = 0, handle = 0\<rparr>,
     settled := [(7, Resolved queueFullApology)]\<rparr>"
proof -
  let ?s = "initial\<lparr>messageQueue := replicate 100
       \<lparr>userId = ascii ''u'', message = ascii ''hi'', q_timestamp = 0, handle = 0\<rparr>\<rparr>"
  have full: "length (messageQueue ?s) \<ge> maxQueueSize"
    by (simp add: maxQueueSize_def)
  from queue_never_exceeds_max [of "[]" ?s "ascii ''v''" "ascii ''hello''" 5 7] full
  show ?thesis by (simp add: initial_def)
qed

lemma run_append: "run (es @ es') s = run es' (run es s)"
  by (induction es arbitrary: s) simp_all

lemma worker_inv_queued:
  "worker_inv s \<Longrightarrow> messageQueue s \<noteq> [] \<Longrightarrow> \<exists>r. inFlight s = [r]"
  by (cases "inFlight s") (auto simp: worker_inv_def split: if_splits)

lemma settle_all_reachable:
  assumes "worker_inv s" "length outs = length (inFlight s) + length (messageQueue s)"
  shows "invoked (run (map (Settle 0) outs) s) = invoked s @ messageQueue s \<and>
         messageQueue (run (map (Settle 0) outs) s) = [] \<and>
         inFlight (run (map (Settle 0) outs) s) = []"
proof (cases "isProcessing s")
  case True
  then have "length (inFlight s) = 1" using assms(1) by (simp add: worker_inv_def)
  then show ?thesis using settle_all [of s outs] assms(2) by simp
next
  case False
  then have "inFlight s = []" "messageQueue s = []" using assms(1) by (simp_all add: worker_inv_def)
  then show ?thesis using assms(2) by simp
qed

text \<open>
  C3. After every history, the calls of \<open>processMessageDirect\<close> made so far followed by
  the entries still queued are the admitted entries in the order of their admission: the
  worker takes them first in, first out. Whenever an entry is queued, a call is in flight,
  so the worker is at work. A rejected call does not stop it: with \<open>r'\<close> next in the
  queue, the rejection of the call in flight is passed to its caller and
  \<open>processMessageDirect\<close> is called on \<open>r'\<close>. However the calls settle, once the call
  in flight and one call for each queued entry have settled, every admitted entry has
  been served, in the order of admission, and the worker is idle.
\<close>

theorem served_in_enqueue_order:
  "invoked (run es initial) @ messageQueue (run es initial) = admitted es initial \<and>
   (messageQueue (run es initial) \<noteq> [] \<longrightarrow> (\<exists>r. inFlight (run es initial) = [r])) \<and>
   (messageQueue (run es initial) = r' # rest \<longrightarrow>
      (\<exists>r. inFlight (run es initial) = [r] \<and>
           settled (run (es @ [Settle 0 (Rejected e)]) initial) =
             settled (run es initial) @ [(handle r, Rejected e)]) \<and>
      inFlight (run (es @ [Settle 0 (Rejected e)]) initial) = [r'] \<and>
      invoked (run (es @ [Settle 0 (Rejected e)]) initial) = invoked (run es initial) @ [r'] \<and>
      messageQueue (run (es @ [Settle 0 (Rejected e)]) initial) = rest) \<and>
   (length outs = length (inFlight (run es initial)) + length (messageQueue (run es initial)) \<longrightarrow>
      invoked (run (es @ map (Settle 0) outs) initial) = admitted es initial \<and>
      messageQueue (run (es @ map (Settle 0) outs) initial) = [] \<and>
      inFlight (run (es @ map (Settle 0) outs) initial) = [])"
proof -
  let ?s = "run es initial"
  have inv: "worker_inv ?s" by (rule worker_inv_run) (rule worker_inv_initial)
  have order: "invoked ?s @ messageQueue ?s = admitted es initial"
    using order_run [of es initial] by (simp add: initial_def)
  have busy: "messageQueue ?s \<noteq> [] \<longrightarrow> (\<exists>r. inFlight ?s = [r])"
    using inv worker_inv_queued by blast
  have reject: "messageQueue ?s = r' # rest \<longrightarrow>
      (\<exists>r. inFlight ?s = [r] \<and>
           settled (run (es @ [Settle 0 (Rejected e)]) initial) =
             settled ?s @ [(handle r, Rejected e)]) \<and>
      inFlight (run (es @ [Settle 0 (Rejected e)]) initial) = [r'] \<and>
      invoked (run (es @ [Settle 0 (Rejected e)]) initial) = invoked ?s @ [r'] \<and>
      messageQueue (run (es @ [Settle 0 (Rejected e)]) initial) = rest"
  proof
    assume q: "messageQueue ?s = r' # rest"
    then obtain r where r: "inFlight ?s = [r]" using busy by auto
    have "run (es @ [Settle 0 (Rejected e)]) initial = resume 0 (Rejected e) ?s"
      by (simp add: run_append)
    then show "(\<exists>r. inFlight ?s = [r] \<and>
           settled (run (es @ [Settle 0 (Rejected e)]) initial) =
             settled ?s @ [(handle r, Rejected e)]) \<and>
      inFlight (run (es @ [Settle 0 (Rejected e)]) initial) = [r'] \<and>
      invoked (run (es @ [Settle 0 (Rejected e)]) initial) = invoked ?s @ [r'] \<and>
      messageQueue (run (es @ [Settle 0 (Rejected e)]) initial) = rest"
      using q r by (simp add: resume_def drain_def)
  qed
  have all: "length outs = length (inFlight ?s) + length (messageQueue ?s) \<longrightarrow>
      invoked (run (es @ map (Settle 0) outs) initial) = admitted es initial \<and>
      messageQueue (run (es @ map (Settle 0) outs) initial) = [] \<and>
      inFlight (run (es @ map (Settle 0) outs) initial) = []"
    using settle_all_reachable [OF inv, of outs] order by (simp add: run_append)
  from order busy reject all show ?thesis by blast
qed

theorem served_in_enqueue_order_witness:
  "messageQueue (run [Enqueue (ascii ''A'') (ascii ''one'') 1 10,
                      Enqueue (ascii ''B'') (ascii ''two'') 2 11,
                      Enqueue (ascii ''C'') (ascii ''three'') 3 12] initial) =
     [\<lparr>userId = ascii ''B'', message = ascii ''two'', q_timestamp = 2, handle = 11\<rparr>,
      \<lparr>userId = ascii ''C'', message = ascii ''three'', q_timestamp = 3, handle = 12\<rparr>] \<and>
   inFlight (run [Enqueue (ascii ''A'') (ascii ''one'') 1 10,
                  Enqueue (ascii ''B'') (ascii ''two'') 2 11,
                  Enqueue (ascii ''C'') (ascii ''three'') 3 12] initial) =
     [\<lparr>userId = ascii ''A'', message = ascii ''one'', q_timestamp = 1, handle = 10\<rparr>] \<and>
   invoked (run ([Enqueue (ascii ''A'') (ascii ''one'') 1 10,
                  Enqueue (ascii ''B'') (ascii ''two'') 2 11,
                  Enqueue (ascii ''C'') (ascii ''three'') 3 12] @
                 [Settle 0 (Rejected (JsError None))]) initial) =
     [\<lparr>userId = ascii ''A'', message = ascii ''one'', q_timestamp = 1, handle = 10\<rparr>,
      \<lparr>userId = ascii ''B'', message = ascii ''two'', q_timestamp = 2, handle = 11\<rparr>] \<and>
   invoked (run ([Enqueue (ascii ''A'') (ascii ''one'') 1 10,
                  Enqueue (ascii ''B'') (ascii ''two'') 2 11,
                  Enqueue (ascii ''C'') (ascii ''three'') 3 12] @
                 map (Settle 0)
                   [Rejected (JsError None), Rejected (JsError None), Resolved (ascii ''ok'')])
            initial) =
     [\<lparr>userId = ascii ''A'', message = ascii ''one'', q_timestamp = 1, handle = 10\<rparr>,
      \<lparr>userId = ascii ''B'', message = ascii ''two'', q_timestamp = 2, handle = 11\<rparr>,
      \<lparr>userId = ascii ''C'', message = ascii ''three'', q_timestamp = 3, handle = 12\<rparr>]"
proof -
  let ?A = "\<lparr>userId = ascii ''A'', message = ascii ''one'', q_timestamp = 1, handle = 10\<rparr>"
  let ?B = "\<lparr>userId = ascii ''B'', message = ascii ''two'', q_timestamp = 2, handle = 11\<rparr>"
  let ?C = "\<lparr>userId = ascii ''C'', message = ascii ''three'', q_timestamp = 3, handle = 12\<rparr>"
  let ?es = "[Enqueue (ascii ''A'') (ascii ''one'') 1 10,
              Enqueue (ascii ''B'') (ascii ''two'') 2 11,
              Enqueue (ascii ''C'') (ascii ''three'') 3 12]"
  let ?outs = "[Rejected (JsError None), Rejected (JsError None), Resolved (ascii ''ok'')]"
  have fl: "inFlight (run ?es initial) = [?A]" and qu: "messageQueue (run ?es initial) = [?B, ?C]"
    and inv: "invoked (run ?es initial) = [?A]"
    by (simp_all add: initial_def addToQueue_def processMessageQueue_def drain_def
        maxQueueSize_def Let_def)
  have len: "length ?outs = length (inFlight (run ?es initial)) +
             length (messageQueue (run ?es initial))"
    using fl qu by simp
  have adm: "admitted ?es initial = [?A, ?B, ?C]"
    by (simp add: initial_def addToQueue_def processMessageQueue_def drain_def
        maxQueueSize_def Let_def)
  from served_in_enqueue_order [of ?es ?B "[?C]" "JsError None" ?outs] fl qu inv len adm
  show ?thesis by simp
qed

section \<open>Properties of the user sessions\<close>

lemma mapGet_mapDelete_other: "k \<noteq> k' \<Longrightarrow> mapGet (mapDelete m k') k = mapGet m k"
  by (induction m) auto

lemma mapGet_member: "distinct (map fst m) \<Longrightarrow> (k, v) \<in> set m \<Longrightarrow> mapGet m k = Some v"
  by (induction m) (auto simp: rev_image_eqI)

lemma cleanupLoop_keeps:
  assumes "\<And>sess'. (uid, sess') \<in> set entries \<Longrightarrow> \<not> now - timestamp sess' > sessionTimeout"
  shows "mapGet (cleanupLoop now entries m) uid = mapGet m uid"
  using assms
proof (induction entries arbitrary: m)
  case Nil
  then show ?case by simp
next
  case (Cons e entries)
  obtain k v where e: "e = (k, v)" by (cases e)
  have IH: "mapGet (cleanupLoop now entries m') uid = mapGet m' uid" for m'
    using Cons.IH Cons.prems by simp
  show ?case
  proof (cases "now - timestamp v > sessionTimeout")
    case True
    then have "k \<noteq> uid" using Cons.prems [of v] e by auto
    then show ?thesis using True e IH by (simp add: mapGet_mapDelete_other)
  next
    case False
    then show ?thesis using e IH by simp
  qed
qed

text \<open>
  The sweep keeps every session whose age is exactly \<open>sessionTimeout\<close>, in any map,
  while \<open>getUserSession\<close> at the same instant treats that session as expired.
\<close>

lemma cleanup_keeps_boundary_age:
  assumes "distinct (map fst m)" "(uid, sess) \<in> set m" "now - timestamp sess = sessionTimeout"
  shows "mapGet (cleanupExpiredSessions now m) uid = Some sess \<and>
         fst (getUserSession uid now m) = None"
proof -
  have get: "mapGet m uid = Some sess" using assms(1,2) by (rule mapGet_member)
  have "\<not> now - timestamp sess' > sessionTimeout" if "(uid, sess') \<in> set m" for sess'
  proof -
    have "mapGet m uid = Some sess'" using assms(1) that by (rule mapGet_member)
    then show ?thesis using get assms(3) by simp
  qed
  then have "mapGet (cleanupLoop now m m) uid = mapGet m uid" by (rule cleanupLoop_keeps)
  then show ?thesis using get assms(3) by (simp add: cleanupExpiredSessions_def getUserSession_def)
qed

text \<open>
  C7. A session last touched at time 0 has age \<open>sessionTimeout\<close> at time 1800000. The
  sweep at that time leaves it in the map, although its age is not below the timeout and
  \<open>getUserSession\<close> at the same time deletes it as expired.
\<close>

theorem cleanup_leaves_session_at_timeout:
  "(1800000::int) - timestamp \<lparr>lastMessage = ascii ''hi'', messageCount = 1, timestamp = 0\<rparr>
      \<ge> sessionTimeout \<and>
   cleanupExpiredSessions 1800000
     [(ascii ''U1'', \<lparr>lastMessage = ascii ''hi'', messageCount = 1, timestamp = 0\<rparr>)] =
     [(ascii ''U1'', \<lparr>lastMessage = ascii ''hi'', messageCount = 1, timestamp = 0\<rparr>)] \<and>
   getUserSession (ascii ''U1'') 1800000
     [(ascii ''U1'', \<lparr>lastMessage = ascii ''hi'', messageCount = 1, timestamp = 0\<rparr>)] =
     (None, [])"
  by (simp add: cleanupExpiredSessions_def getUserSession_def sessionTimeout_def)

section \<open>Properties of the retry loop\<close>

lemma generateLoop_3:
  "generateLoop model 3 d =
     (case model 3 of
        Inr text \<Rightarrow> \<lparr>outcome = Resolved (Some (trim text)), calls = 3, waits = d\<rparr>
      | Inl err \<Rightarrow>
          if isQuotaError err
          then \<lparr>outcome = Rejected (JsError (Some quotaExceededMessage)), calls = 3, waits = d\<rparr>
          else \<lparr>outcome = Rejected err, calls = 3, waits = d\<rparr>)"
  by (subst generateLoop.simps) (simp add: maxRetries_def)

lemma generateLoop_2:
  "generateLoop model 2 d =
     (case model 2 of
        Inr text \<Rightarrow> \<lparr>outcome = Resolved (Some (trim text)), calls = 2, waits = d\<rparr>
      | Inl err \<Rightarrow>
          if isQuotaError err then generateLoop model 3 (d @ [4000])
          else \<lparr>outcome = Rejected err, calls = 2, waits = d\<rparr>)"
  by (subst generateLoop.simps) (simp add: maxRetries_def retryDelay_def split: sum.splits)

lemma generateLoop_1:
  "generateLoop model (Suc 0) d =
     (case model (Suc 0) of
        Inr text \<Rightarrow> \<lparr>outcome = Resolved (Some (trim text)), calls = 1, waits = d\<rparr>
      | Inl err \<Rightarrow>
          if isQuotaError err then generateLoop model 2 (d @ [2000])
          else \<lparr>outcome = Rejected err, calls = 1, waits = d\<rparr>)"
  by (subst generateLoop.simps)
     (simp add: maxRetries_def retryDelay_def numeral_2_eq_2 split: sum.splits)

lemmas generateResponse_unfold =
  generateResponse_def generateLoop_1 generateLoop_2 generateLoop_3

lemma calls_bounds:
  "1 \<le> calls (generateResponse model) \<and> calls (generateResponse model) \<le> maxRetries"
  by (simp add: generateResponse_unfold maxRetries_def split: sum.splits)

lemma waits_linear:
  "waits (generateResponse model) =
     map (\<lambda>k. retryDelay * k) [1..<calls (generateResponse model)]"
  by (simp add: generateResponse_unfold retryDelay_def upt_conv_Cons split: sum.splits)

lemma retried_only_on_quota:
  assumes j: "1 \<le> j" "j < calls (generateResponse model)"
  shows "\<exists>e. model j = Inl e \<and> isQuotaError e"
proof -
  have "calls (generateResponse model) \<le> 3"
    using calls_bounds [of model] by (simp add: maxRetries_def)
  then consider "j = 1" | "j = 2" using j by linarith
  then show ?thesis
  proof cases
    case 1
    then show ?thesis using j(2)
      by (auto simp: generateResponse_unfold split: sum.splits if_splits)
  next
    case 2
    then show ?thesis using j(2)
      by (auto simp: generateResponse_unfold split: sum.splits if_splits)
  qed
qed

lemma other_error_propagates:
  assumes k: "1 \<le> k" "k \<le> maxRetries"
    and earlier: "\<forall>j. 1 \<le> j \<and> j < k \<longrightarrow> (\<exists>e. model j = Inl e \<and> isQuotaError e)"
    and err: "model k = Inl err" "\<not> isQuotaError err"
  shows "outcome (generateResponse model) = Rejected err \<and> calls (generateResponse model) = k"
proof -
  consider "k = 1" | "k = 2" | "k = 3" using k unfolding maxRetries_def by linarith
  then show ?thesis
  proof cases
    case 1
    then show ?thesis using err by (simp add: generateResponse_unfold)
  next
    case 2
    then have "\<exists>e. model 1 = Inl e \<and> isQuotaError e" using earlier by simp
    then obtain e1 where "model 1 = Inl e1" "isQuotaError e1" by blast
    then show ?thesis using 2 err by (simp add: generateResponse_unfold)
  next
    case 3
    then have "\<exists>e. model 1 = Inl e \<and> isQuotaError e" "\<exists>e. model 2 = Inl e \<and> isQuotaError e"
      using earlier by simp_all
    then obtain e1 e2 where
      "model 1 = Inl e1" "isQuotaError e1" "model 2 = Inl e2" "isQuotaError e2"
      by blast
    then show ?thesis using 3 err by (simp add: generateResponse_unfold)
  qed
qed

lemma quota_exhausted:
  assumes "\<forall>j. 1 \<le> j \<and> j \<le> maxRetries \<longrightarrow> (\<exists>e. model j = Inl e \<and> isQuotaError e)"
  shows "generateResponse model =
    \<lparr>outcome = Rejected (JsError (Some quotaExceededMessage)), calls = 3, waits = [2000, 4000]\<rparr>"
proof -
  have "\<exists>e. model 1 = Inl e \<and> isQuotaError e" "\<exists>e. model 2 = Inl e \<and> isQuotaError e"
    "\<exists>e. model 3 = Inl e \<and> isQuotaError e"
    using assms by (simp_all add: maxRetries_def)
  then obtain e1 e2 e3 where
    "model 1 = Inl e1" "isQuotaError e1" "model 2 = Inl e2" "isQuotaError e2"
    "model 3 = Inl e3" "isQuotaError e3"
    by blast
  then show ?thesis by (simp add: generateResponse_unfold)
qed

text \<open>
  C6. \<open>generateResponse\<close> calls the model at least once and at most \<open>maxRetries\<close> = 3
  times; before attempt \<open>k + 1\<close> it waits \<open>retryDelay * k\<close> milliseconds; every attempt
  that is followed by another one failed with a quota error. When attempt \<open>k\<close> fails with
  another error, that error is thrown and no further call is made. When all three attempts
  fail with quota errors, the quota-exceeded error is thrown after waits of 2000 and 4000.
\<close>

theorem generateResponse_retry_policy:
  "1 \<le> calls (generateResponse model) \<and> calls (generateResponse model) \<le> maxRetries \<and>
   waits (generateResponse model) =
     map (\<lambda>k. retryDelay * k) [1..<calls (generateResponse model)] \<and>
   (\<forall>j. 1 \<le> j \<and> j < calls (generateResponse model) \<longrightarrow>
        (\<exists>e. model j = Inl e \<and> isQuotaError e)) \<and>
   (1 \<le> k \<and> k \<le> maxRetries \<and>
    (\<forall>j. 1 \<le> j \<and> j < k \<longrightarrow> (\<exists>e. m1 j = Inl e \<and> isQuotaError e)) \<and>
    m1 k = Inl err \<and> \<not> isQuotaError err \<longrightarrow>
      outcome (generateResponse m1) = Rejected err \<and> calls (generateResponse m1) = k) \<and>
   ((\<forall>j. 1 \<le> j \<and> j \<le> maxRetries \<longrightarrow> (\<exists>e. m2 j = Inl e \<and> isQuotaError e)) \<longrightarrow>
      outcome (generateResponse m2) = Rejected (JsError (Some quotaExceededMessage)) \<and>
      calls (generateResponse m2) = maxRetries \<and>
      waits (generateResponse m2) = [2000, 4000])"
proof -
  have "(\<forall>j. 1 \<le> j \<and> j \<le> maxRetries \<longrightarrow> (\<exists>e. m2 j = Inl e \<and> isQuotaError e)) \<longrightarrow>
      outcome (generateResponse m2) = Rejected (JsError (Some quotaExceededMessage)) \<and>
      calls (generateResponse m2) = maxRetries \<and>
      waits (generateResponse m2) = [2000, 4000]"
    using quota_exhausted [of m2] by (simp add: maxRetries_def)
  moreover have "1 \<le> k \<and> k \<le> maxRetries \<and>
    (\<forall>j. 1 \<le> j \<and> j < k \<longrightarrow> (\<exists>e. m1 j = Inl e \<and> isQuotaError e)) \<and>
    m1 k = Inl err \<and> \<not> isQuotaError err \<longrightarrow>
      outcome (generateResponse m1) = Rejected err \<and> calls (generateResponse m1) = k"
    using other_error_propagates [of k m1 err] by blast
  moreover have "\<forall>j. 1 \<le> j \<and> j < calls (generateResponse model) \<longrightarrow>
        (\<exists>e. model j = Inl e \<and> isQuotaError e)"
    using retried_only_on_quota [of _ model] by blast
  ultimately show ?thesis
    using calls_bounds [of model] waits_linear [of model] by blast
qed

theorem generateResponse_retry_policy_witness:
  "calls (generateResponse (\<lambda>k. if k = 1 then Inl (JsError (Some (ascii ''[429 Too Many Requests]'')))
                                else Inr (ascii '' ok ''))) = 2 \<and>
   waits (generateResponse (\<lambda>k. if k = 1 then Inl (JsError (Some (ascii ''[429 Too Many Requests]'')))
                                else Inr (ascii '' ok ''))) = [2000] \<and>
   outcome (generateResponse (\<lambda>k. if k = 1 then Inl (JsError (Some (ascii ''[429 Too Many Requests]'')))
                                else Inl (JsError (Some (ascii ''fetch failed''))))) =
     Rejected (JsError (Some (ascii ''fetch failed''))) \<and>
   calls (generateResponse (\<lambda>k. if k = 1 then Inl (JsError (Some (ascii ''[429 Too Many Requests]'')))
                                else Inl (JsError (Some (ascii ''fetch failed''))))) = 2 \<and>
   outcome (generateResponse (\<lambda>k. Inl (JsError (Some (ascii ''[429 Too Many Requests]''))))) =
     Rejected (JsError (Some quotaExceededMessage)) \<and>
   calls (generateResponse (\<lambda>k. Inl (JsError (Some (ascii ''[429 Too Many Requests]''))))) = 3"
proof -
  let ?q = "JsError (Some (ascii ''[429 Too Many Requests]''))"
  let ?o = "JsError (Some (ascii ''fetch failed''))"
  let ?model = "\<lambda>k::nat. if k = 1 then Inl ?q else Inr (ascii '' ok '') :: jserror + jsstring"
  let ?m1 = "\<lambda>k::nat. if k = 1 then Inl ?q else Inl ?o :: jserror + jsstring"
  let ?m2 = "\<lambda>k::nat. Inl ?q :: jserror + jsstring"
  have q: "isQuotaError ?q" by (simp add: isQuotaError_def ascii_def)
  have o: "\<not> isQuotaError ?o" by (simp add: isQuotaError_def ascii_def)
  have c: "calls (generateResponse ?model) = 2"
    using q by (simp add: generateResponse_unfold)
  have h1: "(1::nat) \<le> 2 \<and> 2 \<le> maxRetries \<and>
    (\<forall>j. 1 \<le> j \<and> j < 2 \<longrightarrow> (\<exists>e. ?m1 j = Inl e \<and> isQuotaError e)) \<and>
    ?m1 2 = Inl ?o \<and> \<not> isQuotaError ?o"
    using q o by (auto simp: maxRetries_def)
  have h2: "\<forall>j. 1 \<le> j \<and> j \<le> maxRetries \<longrightarrow> (\<exists>e. ?m2 j = Inl e \<and> isQuotaError e)"
    using q by simp
  from generateResponse_retry_policy [of ?model 2 ?m1 ?o ?m2] c h1 h2
  show ?thesis by (simp add: retryDelay_def maxRetries_def upt_conv_Cons)
qed

section \<open>Properties of the document cache\<close>

text \<open>
  C10. When the request of \<open>_loadDocumentContent\<close> fails, whatever the state of the
  service at that moment, the error reaches the caller, \<open>contentCache\<close> and
  \<open>cacheTimestamp\<close> keep their values, and the \<open>finally\<close> block leaves \<open>isLoading\<close>
  false and \<open>loadingPromise\<close> null. The same holds for a whole call of
  \<open>getDocumentContent\<close> that starts the load itself.
\<close>

theorem failed_fetch_keeps_cache:
  "(loadDocumentContent (Inl err) now s = (loaded, s1) \<and>
    getDocumentContent_finish loaded s1 = (res, s2) \<longrightarrow>
      res = Rejected err \<and> contentCache s2 = contentCache s \<and>
      cacheTimestamp s2 = cacheTimestamp s \<and> \<not> isLoading s2 \<and> loadingPromise s2 = None) \<and>
   (fst (getDocumentContent_start forceRefresh now' p t) = AwaitsOwn p \<and>
    getDocumentContent forceRefresh now' p (Inl err') later other t = (res', t') \<longrightarrow>
      res' = Rejected err' \<and> contentCache t' = contentCache t \<and>
      cacheTimestamp t' = cacheTimestamp t \<and> \<not> isLoading t' \<and> loadingPromise t' = None)"
  by (auto simp: loadDocumentContent_def getDocumentContent_finish_def getDocumentContent_def
      getDocumentContent_start_def split: if_splits option.splits)


theorem failed_fetch_keeps_cache_witness:
  "fst (getDocumentContent_start False 100000 1
      \<lparr>docs = True, docsId = Some (ascii ''doc1''), contentCache = Some (ascii ''old''),
       cacheTimestamp = Some 1000, isLoading = False, loadingPromise = None\<rparr>) = AwaitsOwn 1 \<and>
   getDocumentContent False 100000 1 (Inl (JsError (Some (ascii ''network'')))) 100250
      (Resolved [])
      \<lparr>docs = True, docsId = Some (ascii ''doc1''), contentCache = Some (ascii ''old''),
       cacheTimestamp = Some 1000, isLoading = False, loadingPromise = None\<rparr> =
     (Rejected (JsError (Some (ascii ''network''))),
      \<lparr>docs = True, docsId = Some (ascii ''doc1''), contentCache = Some (ascii ''old''),
       cacheTimestamp = Some 1000, isLoading = False, loadingPromise = None\<rparr>) \<and>
   getDocumentContent_finish
     (fst (loadDocumentContent (Inl (JsError (Some (ascii ''network'')))) 100000
        \<lparr>docs = True, docsId = Some (ascii ''doc1''), contentCache = Some (ascii ''old''),
         cacheTimestamp = Some 1000, isLoading = True, loadingPromise = Some 1\<rparr>))
     (snd (loadDocumentContent (Inl (JsError (Some (ascii ''network'')))) 100000
        \<lparr>docs = True, docsId = Some (ascii ''doc1''), contentCache = Some (ascii ''old''),
         cacheTimestamp = Some 1000, isLoading = True, loadingPromise = Some 1\<rparr>)) =
     (Rejected (JsError (Some (ascii ''network''))),
      \<lparr>docs = True, docsId = Some (ascii ''doc1''), contentCache = Some (ascii ''old''),
       cacheTimestamp = Some 1000, isLoading = False, loadingPromise = None\<rparr>)"
proof -
  let ?t = "\<lparr>docs = True, docsId = Some (ascii ''doc1''), contentCache = Some (ascii ''old''),
       cacheTimestamp = Some 1000, isLoading = False, loadingPromise = None\<rparr>"
  let ?s = "\<lparr>docs = True, docsId = Some (ascii ''doc1''), contentCache = Some (ascii ''old''),
       cacheTimestamp = Some 1000, isLoading = True, loadingPromise = Some 1\<rparr>"
  let ?e = "JsError (Some (ascii ''network''))"
  have start: "fst (getDocumentContent_start False 100000 1 ?t) = AwaitsOwn 1"
    by (simp add: getDocumentContent_start_def cacheValid_def cacheExpiry_def ascii_def)
  have whole: "getDocumentContent False 100000 1 (Inl ?e) 100250 (Resolved []) ?t =
               (Rejected ?e, ?t)"
    by (simp add: getDocumentContent_def getDocumentContent_start_def cacheValid_def
        cacheExpiry_def ascii_def loadDocumentContent_def getDocumentContent_finish_def)
  have load: "loadDocumentContent (Inl ?e) 100000 ?s = (Rejected ?e, ?s)"
    by (simp add: loadDocumentContent_def)
  have fin: "getDocumentContent_finish (Rejected ?e) ?s = (Rejected ?e, ?t)"
    by (simp add: getDocumentContent_finish_def)
  from failed_fetch_keeps_cache
         [of ?e 100000 ?s "Rejected ?e" ?s "Rejected ?e" ?t False 100000 1 ?t ?e 100250
             "Resolved []" "Rejected ?e" ?t]
       start whole load fin
  show ?thesis by simp
qed

section \<open>Properties of the source attempts\<close>













section \<open>Properties of the keyword lookup\<close>

lemma startsWith_refl: "startsWith s s"
  by (induction s) simp_all

lemma str_includes_refl: "str_includes s s"
  by (cases s) (simp_all add: startsWith_refl)

lemma str_includes_Nil: "str_includes s []"
  by (cases s) simp_all

lemma firstPass_skip:
  assumes "\<forall>p\<in>set pre. keyword p = [] \<or>
             (\<not> str_includes msg (trim (lc (keyword p))) \<and>
              \<not> str_includes (trim (lc (keyword p))) msg)"
  shows "firstPass lc msg (pre @ rest) = firstPass lc msg rest"
  using assms
proof (induction pre)
  case Nil
  then show ?case by simp
next
  case (Cons p pre)
  show ?case
  proof (cases "keyword p = []")
    case True
    then show ?thesis using Cons by simp
  next
    case False
    then have no: "\<not> str_includes msg (trim (lc (keyword p)))"
      "\<not> str_includes (trim (lc (keyword p))) msg"
      using Cons.prems by simp_all
    then have "msg \<noteq> trim (lc (keyword p))" using str_includes_refl [of msg] by auto
    then show ?thesis using False no Cons by simp
  qed
qed

lemma findMatchingKeyword_firstPass:
  "keywordsData \<noteq> [] \<Longrightarrow> firstPass lc (trim (lc userMessage)) keywordsData = Some m \<Longrightarrow>
   findMatchingKeyword lc keywordsData userMessage threshold = Some m"
  by (simp add: findMatchingKeyword_def Let_def)

text \<open>
  An entry with a non-empty keyword whose normal form (lower case, trimmed) is that of the
  message is returned with score 1 and type \<open>exact\<close>, provided that no earlier entry
  with a non-empty keyword has a normal form that contains the normal form of the message
  or is contained in it.
\<close>

theorem exact_match_when_first:
  assumes "keywordsData = pre @ item # post" "keyword item \<noteq> []"
    "trim (lc userMessage) = trim (lc (keyword item))"
    "\<forall>p\<in>set pre. keyword p = [] \<or>
       (\<not> str_includes (trim (lc userMessage)) (trim (lc (keyword p))) \<and>
        \<not> str_includes (trim (lc (keyword p))) (trim (lc userMessage)))"
  shows "findMatchingKeyword lc keywordsData userMessage threshold =
         Some \<lparr>r_keyword = originalKeyword item, r_answer = answer item, score = 1,
               matchType = ascii ''exact''\<rparr>"
proof -
  have "firstPass lc (trim (lc userMessage)) keywordsData =
        firstPass lc (trim (lc userMessage)) (item # post)"
    unfolding assms(1) using assms(4) by (rule firstPass_skip)
  also have "\<dots> = Some (matchOf item 1 (ascii ''exact''))"
    using assms(2,3) by simp
  finally show ?thesis
    using assms(1) by (simp add: findMatchingKeyword_firstPass matchOf_def)
qed


theorem exact_match_when_first_witness:
  "findMatchingKeyword (map lowerAscii)
     [\<lparr>item_id = 1, keyword = ascii ''opening hours'', answer = ascii ''A1'',
       originalKeyword = ascii ''opening hours'', sheet = ascii ''Sheet1''\<rparr>,
      \<lparr>item_id = 2, keyword = ascii ''Price '', answer = ascii ''A2'',
       originalKeyword = ascii ''Price '', sheet = ascii ''Sheet1''\<rparr>]
     (ascii '' PRICE'') (6 / 10) =
   Some \<lparr>r_keyword = ascii ''Price '', r_answer = ascii ''A2'', score = 1,
         matchType = ascii ''exact''\<rparr>"
proof -
  let ?p = "\<lparr>item_id = 1, keyword = ascii ''opening hours'', answer = ascii ''A1'',
       originalKeyword = ascii ''opening hours'', sheet = ascii ''Sheet1''\<rparr>"
  let ?item = "\<lparr>item_id = 2, keyword = ascii ''Price '', answer = ascii ''A2'',
       originalKeyword = ascii ''Price '', sheet = ascii ''Sheet1''\<rparr>"
  have h1: "[?p, ?item] = [?p] @ ?item # []" by simp
  have h2: "keyword ?item \<noteq> []" by (simp add: ascii_def)
  have h3: "trim (map lowerAscii (ascii '' PRICE'')) = trim (map lowerAscii (keyword ?item))"
    by (simp add: ascii_def trim_def isWhiteSpace_def lowerAscii_def)
  have h4: "\<forall>p\<in>set [?p]. keyword p = [] \<or>
       (\<not> str_includes (trim (map lowerAscii (ascii '' PRICE'')))
            (trim (map lowerAscii (keyword p))) \<and>
        \<not> str_includes (trim (map lowerAscii (keyword p)))
            (trim (map lowerAscii (ascii '' PRICE''))))"
    by (simp add: ascii_def trim_def isWhiteSpace_def lowerAscii_def)
  from exact_match_when_first
         [where keywordsData = "[?p, ?item]" and pre = "[?p]" and item = ?item and post = "[]"
            and lc = "map lowerAscii" and userMessage = "ascii '' PRICE''"
            and threshold = "6 / 10", OF h1 h2 h3 h4]
  show ?thesis by simp
qed

text \<open>
  C5. The first pass returns at the first entry that matches the message exactly or
  partially, so an earlier partial match hides a later exact one: with the keywords
  \<open>price list\<close> and \<open>price\<close> in this order, the message \<open>price\<close> has the normal
  form of the second keyword, and the first entry is returned with score 0.9 and type
  \<open>partial\<close>.
\<close>

theorem exact_match_shadowed_by_partial:
  "keyword \<lparr>item_id = 2, keyword = ascii ''price'', answer = ascii ''A2'',
                originalKeyword = ascii ''price'', sheet = ascii ''Sheet1''\<rparr> \<noteq> [] \<and>
   trim (map lowerAscii (ascii ''price'')) =
     trim (map lowerAscii (keyword \<lparr>item_id = 2, keyword = ascii ''price'', answer = ascii ''A2'',
                originalKeyword = ascii ''price'', sheet = ascii ''Sheet1''\<rparr>)) \<and>
   findMatchingKeyword (map lowerAscii)
     [\<lparr>item_id = 1, keyword = ascii ''price list'', answer = ascii ''A1'',
       originalKeyword = ascii ''price list'', sheet = ascii ''Sheet1''\<rparr>,
      \<lparr>item_id = 2, keyword = ascii ''price'', answer = ascii ''A2'',
       originalKeyword = ascii ''price'', sheet = ascii ''Sheet1''\<rparr>]
     (ascii ''price'') (6 / 10) =
   Some \<lparr>r_keyword = ascii ''price list'', r_answer = ascii ''A1'', score = 9 / 10,
         matchType = ascii ''partial''\<rparr> \<and>
   findMatchingKeyword (map lowerAscii)
     [\<lparr>item_id = 1, keyword = ascii ''price list'', answer = ascii ''A1'',
       originalKeyword = ascii ''price list'', sheet = ascii ''Sheet1''\<rparr>,
      \<lparr>item_id = 2, keyword = ascii ''price'', answer = ascii ''A2'',
       originalKeyword = ascii ''price'', sheet = ascii ''Sheet1''\<rparr>]
     (ascii ''price'') (6 / 10) \<noteq>
   Some \<lparr>r_keyword = ascii ''price'', r_answer = ascii ''A2'', score = 1,
         matchType = ascii ''exact''\<rparr>"
  by (simp add: findMatchingKeyword_def Let_def ascii_def trim_def isWhiteSpace_def
      lowerAscii_def matchOf_def)


text \<open>
  C9, as the code has it. When the normal form of the message is empty and some entry has
  a non-empty keyword, the first such entry is returned: with score 0.9 and type
  \<open>partial\<close> when the normal form of its keyword is not empty, with score 1 and type
  \<open>exact\<close> when its keyword consists of white space.
\<close>

theorem empty_message_first_keyword:
  assumes "trim (lc userMessage) = []" "keywordsData = pre @ item # post"
    "\<forall>p\<in>set pre. keyword p = []" "keyword item \<noteq> []"
  shows "findMatchingKeyword lc keywordsData userMessage threshold =
         Some (if trim (lc (keyword item)) = []
               then \<lparr>r_keyword = originalKeyword item, r_answer = answer item, score = 1,
                     matchType = ascii ''exact''\<rparr>
               else \<lparr>r_keyword = originalKeyword item, r_answer = answer item, score = 9 / 10,
                     matchType = ascii ''partial''\<rparr>)"
proof -
  have "firstPass lc [] keywordsData = firstPass lc [] (item # post)"
    unfolding assms(2) using assms(3) by (intro firstPass_skip) simp
  also have "\<dots> = Some (if trim (lc (keyword item)) = [] then matchOf item 1 (ascii ''exact'')
                       else matchOf item (9 / 10) (ascii ''partial''))"
    using assms(4) by (simp add: str_includes_Nil)
  finally show ?thesis
    using assms(1,2) findMatchingKeyword_firstPass [of keywordsData lc userMessage _ threshold]
    by (simp add: matchOf_def)
qed


theorem empty_message_first_keyword_witness:
  "findMatchingKeyword (map lowerAscii)
     [\<lparr>item_id = 1, keyword = [], answer = ascii ''A1'',
       originalKeyword = [], sheet = ascii ''Sheet1''\<rparr>,
      \<lparr>item_id = 2, keyword = ascii ''Price'', answer = ascii ''A2'',
       originalKeyword = ascii ''Price'', sheet = ascii ''Sheet1''\<rparr>]
     (ascii ''  '') (6 / 10) =
   Some \<lparr>r_keyword = ascii ''Price'', r_answer = ascii ''A2'', score = 9 / 10,
         matchType = ascii ''partial''\<rparr>"
proof -
  let ?p = "\<lparr>item_id = 1, keyword = [], answer = ascii ''A1'',
       originalKeyword = [], sheet = ascii ''Sheet1''\<rparr>"
  let ?item = "\<lparr>item_id = 2, keyword = ascii ''Price'', answer = ascii ''A2'',
       originalKeyword = ascii ''Price'', sheet = ascii ''Sheet1''\<rparr>"
  have h1: "trim (map lowerAscii (ascii ''  '')) = []"
    by (simp add: ascii_def trim_def isWhiteSpace_def lowerAscii_def)
  have h2: "[?p, ?item] = [?p] @ ?item # []" by simp
  have h3: "\<forall>p\<in>set [?p]. keyword p = []" by simp
  have h4: "keyword ?item \<noteq> []" by (simp add: ascii_def)
  have h5: "trim (map lowerAscii (keyword ?item)) \<noteq> []"
    by (simp add: ascii_def trim_def isWhiteSpace_def lowerAscii_def)
  from empty_message_first_keyword
         [where keywordsData = "[?p, ?item]" and pre = "[?p]" and item = ?item and post = "[]"
            and lc = "map lowerAscii" and userMessage = "ascii ''  ''"
            and threshold = "6 / 10", OF h1 h2 h3 h4] h5
  show ?thesis by simp
qed

text \<open>
  The claim fails for a keyword of white space, which is returned as an exact match,
  and for a collection without a non-empty keyword, where nothing is returned.
\<close>

theorem empty_message_not_always_partial:
  "findMatchingKeyword (map lowerAscii)
     [\<lparr>item_id = 1, keyword = ascii '' '', answer = ascii ''A1'',
       originalKeyword = ascii '' '', sheet = ascii ''Sheet1''\<rparr>]
     (ascii '''') (6 / 10) =
   Some \<lparr>r_keyword = ascii '' '', r_answer = ascii ''A1'', score = 1,
         matchType = ascii ''exact''\<rparr> \<and>
   findMatchingKeyword (map lowerAscii)
     [\<lparr>item_id = 1, keyword = [], answer = ascii ''A1'',
       originalKeyword = [], sheet = ascii ''Sheet1''\<rparr>]
     (ascii ''  '') (6 / 10) = None"
  by (simp add: findMatchingKeyword_def Let_def ascii_def trim_def isWhiteSpace_def
      lowerAscii_def matchOf_def splitWords_def contactPass_def emailTerms_def phoneTerms_def
      contactTerms_def)


section \<open>Properties of the link formatter\<close>




lemma str_includes_Cons: "str_includes s t \<Longrightarrow> str_includes (c # s) t"
  by simp





declare backtrack.simps [simp del]







lemma backtrack_Some:
  "backtrack items lo m s = Some n \<Longrightarrow>
   \<exists>j k. lo \<le> j \<and> j \<le> m \<and> matchSeq items (drop j s) = Some k \<and> n = j + k"
proof (induction m)
  case 0
  then show ?case
    by (auto simp: backtrack.simps [of items lo 0 s] split: if_splits option.splits)
next
  case (Suc m)
  show ?case
  proof (cases "matchSeq items (drop (Suc m) s)")
    case (Some k)
    then have "lo \<le> Suc m" "n = Suc m + k" using Suc.prems
      by (auto simp: backtrack.simps [of items lo "Suc m" s] split: if_splits)
    then show ?thesis using Some by blast
  next
    case None
    then have "backtrack items lo m s = Some n" using Suc.prems
      by (auto simp: backtrack.simps [of items lo "Suc m" s] split: if_splits)
    then obtain j k where "lo \<le> j" "j \<le> m" "matchSeq items (drop j s) = Some k" "n = j + k"
      using Suc.IH by blast
    then show ?thesis by (metis le_Suc_eq)
  qed
qed

lemma matchSeq_Rpt:
  "matchSeq (Rpt P lo hi # items) s = Some n \<Longrightarrow>
   \<exists>j k. lo \<le> j \<and> j \<le> available P hi s \<and> matchSeq items (drop j s) = Some k \<and> n = j + k"
  using backtrack_Some by simp

lemma available_pos: "1 \<le> available P hi s \<Longrightarrow> \<exists>c cs. s = c # cs \<and> P c"
proof -
  assume "1 \<le> available P hi s"
  then have "takeWhile P s \<noteq> []" by (auto simp: available_def split: option.splits)
  then show ?thesis by (cases s) (auto split: if_splits)
qed

lemma matchSeq_lit:
  assumes "matchSeq (lit c # items) s = Some n"
  shows "\<exists>cs k. s = c # cs \<and> matchSeq items cs = Some k \<and> n = Suc k"
proof -
  obtain j k where j: "1 \<le> j" "j \<le> available (\<lambda>x. x = c) (Some 1) s"
    and k: "matchSeq items (drop j s) = Some k" "n = j + k"
    using assms matchSeq_Rpt unfolding lit_def by blast
  have "available (\<lambda>x. x = c) (Some 1) s \<le> 1" by (simp add: available_def)
  then have j1: "j = 1" using j by simp
  then obtain d cs where "s = d # cs" "d = c" using j(2) available_pos by blast
  then show ?thesis using k j1 by simp
qed



lemma phone_needs_dash: "matchSeq phonePattern s = Some n \<Longrightarrow> 45 \<in> set s"
proof -
  assume "matchSeq phonePattern s = Some n"
  then obtain j k where
    "matchSeq [lit 45, Rpt isDigit 3 (Some 4), lit 45, Rpt isDigit 4 (Some 4)] (drop j s) = Some k"
    using matchSeq_Rpt unfolding phonePattern_def by blast
  then obtain cs where "drop j s = 45 # cs" using matchSeq_lit by blast
  then have "45 \<in> set (drop j s)" by simp
  then show ?thesis using set_drop_subset by fastforce
qed



































end
